theory Spec2Isabelle
  imports Complex_Main
begin

section \<open>Preprocessing of Prisma data: \<open>preprocessing/prisma_preproc.py\<close>\<close>

text \<open>
  The script parses its command line into a session dictionary (\<open>main\<close>) and builds a
  nipype workflow from it (\<open>create_preproc_workflow\<close>). Strings are byte strings
  (ASCII); Python's unbounded integers are \<^typ>\<open>int\<close>. Every exception the script can
  raise is a value of \<open>error\<close>, and a function that can raise returns \<open>error + 'a\<close>.
\<close>

subsection \<open>Errors\<close>

datatype error =
    IndexError
  | ValueError
  | OSError
  | Exception string
  | FanOutArityError

definition and_then :: "error + 'a \<Rightarrow> ('a \<Rightarrow> error + 'b) \<Rightarrow> error + 'b" where
  "and_then m f = (case m of Inl e \<Rightarrow> Inl e | Inr x \<Rightarrow> f x)"

text \<open>A list comprehension whose element expression can raise: the first error wins.\<close>

fun collect :: "('a \<Rightarrow> error + 'b) \<Rightarrow> 'a list \<Rightarrow> error + 'b list" where
  "collect f [] = Inr []"
| "collect f (x # xs) =
     (case f x of
        Inl e \<Rightarrow> Inl e
      | Inr y \<Rightarrow> (case collect f xs of Inl e \<Rightarrow> Inl e | Inr ys \<Rightarrow> Inr (y # ys)))"

subsection \<open>Python builtins on strings\<close>

text \<open>\<open>'%d' % n\<close> and \<open>'%02d' % n\<close>: decimal digits, a minus sign for a negative number,
  and for \<open>%02d\<close> zeros on the left up to a width of two characters.\<close>

definition digit_char :: "nat \<Rightarrow> char" where
  "digit_char d = ''0123456789'' ! d"

fun dec :: "nat \<Rightarrow> string" where
  "dec n = (if n < 10 then [digit_char n] else dec (n div 10) @ [digit_char (n mod 10)])"

declare dec.simps [simp del]

definition fmt_d :: "int \<Rightarrow> string" where
  "fmt_d i = (if i < 0 then CHR ''-'' # dec (nat (- i)) else dec (nat i))"

definition fmt_02d :: "int \<Rightarrow> string" where
  "fmt_02d i =
     (if i < 0 then fmt_d i
      else replicate (2 - length (dec (nat i))) CHR ''0'' @ dec (nat i))"

text \<open>
  \<open>int(s)\<close> on a string: white space around the number is dropped, one sign may lead,
  and the rest is decimal digits, where a single underscore may stand between two digits.
  Anything else raises \<open>ValueError\<close>, which is \<open>None\<close> here. White space is what
  \<open>int()\<close> and \<open>float()\<close> skip in an ASCII string: tab, line feed, vertical tab, form
  feed, carriage return and the space (codes 9 to 13 and 32); the separators with codes 28
  to 31, which \<open>str.strip\<close> would drop, are not among them.
\<close>

definition is_space :: "char \<Rightarrow> bool" where
  "is_space c = (of_char c \<in> {9, 10, 11, 12, 13, 32 :: nat})"

definition is_digit :: "char \<Rightarrow> bool" where
  "is_digit c = (48 \<le> (of_char c :: nat) \<and> (of_char c :: nat) \<le> 57)"

definition digit_val :: "char \<Rightarrow> nat" where
  "digit_val c = of_char c - 48"

definition strip :: "string \<Rightarrow> string" where
  "strip s = rev (dropWhile is_space (rev (dropWhile is_space s)))"

fun dig_seq :: "nat \<Rightarrow> string \<Rightarrow> nat option" where
  "dig_seq acc [] = Some acc"
| "dig_seq acc (c # cs) =
     (if is_digit c then dig_seq (10 * acc + digit_val c) cs
      else if c = CHR ''_'' then
        (case cs of
           [] \<Rightarrow> None
         | d # ds \<Rightarrow> if is_digit d then dig_seq (10 * acc + digit_val d) ds else None)
      else None)"

definition digits_value :: "string \<Rightarrow> nat option" where
  "digits_value s =
     (case s of
        [] \<Rightarrow> None
      | c # cs \<Rightarrow> if is_digit c then dig_seq (digit_val c) cs else None)"

definition py_int :: "string \<Rightarrow> int option" where
  "py_int s =
     (case strip s of
        [] \<Rightarrow> None
      | c # cs \<Rightarrow>
          if c = CHR ''-'' then map_option (\<lambda>n. - int n) (digits_value cs)
          else if c = CHR ''+'' then map_option int (digits_value cs)
          else map_option int (digits_value (c # cs)))"

text \<open>
  Interpreters from 3.11 on refuse, with \<open>ValueError\<close> again, a string that has more
  decimal digits than \<open>sys.get_int_max_str_digits()\<close>; the limit is only looked at above
  640 digits, and 0 switches it off. \<open>py_int\<close> is \<open>int()\<close> with no limit (an older
  interpreter, or the limit 0); \<open>py_int_limited\<close> is \<open>int()\<close> under the limit given.
\<close>

definition py_int_limited :: "nat \<Rightarrow> string \<Rightarrow> int option" where
  "py_int_limited max_str_digits s =
     (let digits = length (filter is_digit s) in
      if 640 < digits \<and> 0 < max_str_digits \<and> max_str_digits < digits then None
      else py_int s)"

text \<open>
  The same strings by their shape, as the language reference describes them, and not by
  a scan from the left. An integer literal is white space, an optional sign, a body and
  white space again; the body is made of decimal digits and underscores, begins and ends
  with a digit and has no two underscores in a row. It denotes the number that its digits
  write in base ten, the underscores left out, negated after a minus sign.
\<close>

definition white_space :: "char set" where
  "white_space = {CHR 0x09, CHR 0x0A, CHR 0x0B, CHR 0x0C, CHR 0x0D, CHR 0x20}"

definition decimal_digits :: "char set" where
  "decimal_digits = set ''0123456789''"

definition literal_body :: "string \<Rightarrow> bool" where
  "literal_body b =
     (b \<noteq> [] \<and> set b \<subseteq> insert CHR ''_'' decimal_digits
      \<and> hd b \<noteq> CHR ''_'' \<and> last b \<noteq> CHR ''_''
      \<and> successively (\<lambda>x y. x \<noteq> CHR ''_'' \<or> y \<noteq> CHR ''_'') b)"

definition base_ten :: "string \<Rightarrow> nat" where
  "base_ten ds =
     (\<Sum>i < length ds. (of_char (ds ! i) - of_char CHR ''0'') * 10 ^ (length ds - Suc i))"

definition body_value :: "string \<Rightarrow> nat" where
  "body_value b = base_ten (filter (\<lambda>c. c \<noteq> CHR ''_'') b)"

definition int_literal :: "string \<Rightarrow> int \<Rightarrow> bool" where
  "int_literal v n =
     (\<exists>ws1 sg b ws2.
        v = ws1 @ sg @ b @ ws2
        \<and> set ws1 \<subseteq> white_space \<and> set ws2 \<subseteq> white_space \<and> literal_body b
        \<and> (sg = [] \<and> n = int (body_value b)
           \<or> sg = ''+'' \<and> n = int (body_value b)
           \<or> sg = ''-'' \<and> n = - int (body_value b)))"

text \<open>
  The description is that of \<open>int()\<close> on ASCII strings, which is what the characters of
  this model stand for: beyond code 127 \<open>int()\<close> also takes the white space and the
  decimal digits of other scripts.
\<close>

definition is_ascii :: "string \<Rightarrow> bool" where
  "is_ascii v = (\<forall>c \<in> set v. (of_char c :: nat) < 128)"

text \<open>The digit limit, on the number of decimal digits in the string.\<close>

definition within_digit_limit :: "nat \<Rightarrow> string \<Rightarrow> bool" where
  "within_digit_limit max_str_digits v =
     (max_str_digits = 0
      \<or> length (filter (\<lambda>c. c \<in> decimal_digits) v) \<le> max max_str_digits 640)"

text \<open>\<open>s.split(sep)\<close> for a one-character separator: never empty, \<open>''.split(',') == ['']\<close>.\<close>

fun split_py :: "char \<Rightarrow> string \<Rightarrow> string list" where
  "split_py sep [] = [[]]"
| "split_py sep (c # cs) =
     (if c = sep then [] # split_py sep cs
      else (case split_py sep cs of
              [] \<Rightarrow> [[c]]
            | w # ws \<Rightarrow> (c # w) # ws))"

text \<open>\<open>sep.join(xs)\<close>.\<close>

fun join_py :: "string \<Rightarrow> string list \<Rightarrow> string" where
  "join_py sep [] = []"
| "join_py sep [x] = x"
| "join_py sep (x # y # ys) = x @ sep @ join_py sep (y # ys)"

text \<open>\<open>os.path.join(a, *p)\<close> of \<open>posixpath\<close>: a component that starts with a slash
  replaces what came before it.\<close>

definition join1 :: "string \<Rightarrow> string \<Rightarrow> string" where
  "join1 path b =
     (if take 1 b = ''/'' then b
      else if path = [] \<or> last path = CHR ''/'' then path @ b
      else path @ ''/'' @ b)"

definition op_join :: "string \<Rightarrow> string list \<Rightarrow> string" where
  "op_join a p = foldl join1 a p"

subsection \<open>Command line, session dictionary, interpreter and file system\<close>

text \<open>The result of \<open>parser.parse_args\<close> (lines 16 to 59).\<close>

record args =
  arg_subject :: string
  arg_datadir :: string
  arg_outdir :: string
  arg_epis :: "int list"
  arg_sbref :: int
  arg_distortPE :: string
  arg_distortrevPE :: string
  arg_PEdim :: string
  arg_plugin :: string
  arg_working_dir :: "string option"
  arg_dir_structure :: string
  arg_plugin_args :: "string option"

text \<open>
  A value stored under \<open>session['plugin_args']\<close>, or handed to the \<open>%\<close> operator: an
  integer, a float or a string. The float type is left open: \<open>float()\<close> is a builtin whose
  result is a machine double.
\<close>

datatype 'f pyval = PInt int | PFloat 'f | PStr string

record 'f session =
  subj :: string
  data :: string
  nii_temp :: string
  nii_fmap_temp :: "string option"
  epis :: "string list"
  sbref :: string
  distort_PE :: string
  distort_revPE :: string
  PE_dim :: string
  out :: string
  working_dir :: string
  plugin_args :: "string \<rightharpoonup> 'f pyval"
  plugin :: string

text \<open>
  What the script uses and does not define: the interpreter's limit on the digits of
  \<open>int()\<close>, \<open>float()\<close> on a string, the \<open>%\<close> operator on a template that contains the
  user's data directory, \<open>glob\<close>, \<open>os.makedirs\<close> and opening a file for writing. The file
  system is the set of paths for which \<open>os.path.exists\<close> holds; the two operations that
  change it return the new set or fail.
\<close>

record 'f world =
  int_max_str_digits :: nat
  py_float :: "string \<Rightarrow> 'f option"
  py_format :: "string \<Rightarrow> 'f pyval list \<Rightarrow> error + string"
  os_glob :: "string \<Rightarrow> string list"
  os_makedirs :: "string \<Rightarrow> string set \<Rightarrow> error + string set"
  os_write :: "string \<Rightarrow> string set \<Rightarrow> error + string set"

subsection \<open>\<open>main\<close>, lines 61 to 83: the scan files\<close>

text \<open>\<open>glob(template % values)[0]\<close>: \<open>IndexError\<close> when nothing matches.\<close>

definition glob_first :: "'f world \<Rightarrow> string \<Rightarrow> 'f pyval list \<Rightarrow> error + string" where
  "glob_first w template vals =
     and_then (py_format w template vals)
       (\<lambda>pattern. case os_glob w pattern of [] \<Rightarrow> Inl IndexError | f # _ \<Rightarrow> Inr f)"

definition int_of_arg :: "'f world \<Rightarrow> string \<Rightarrow> error + int" where
  "int_of_arg w s =
     (case py_int_limited (int_max_str_digits w) s of
        None \<Rightarrow> Inl ValueError
      | Some i \<Rightarrow> Inr i)"

record scans =
  sc_nii_temp :: string
  sc_nii_fmap_temp :: "string option"
  sc_epis :: "string list"
  sc_sbref :: string
  sc_distort_PE :: string
  sc_distort_revPE :: string

definition find_scans :: "'f world \<Rightarrow> args \<Rightarrow> error + scans" where
  "find_scans w a =
     (if arg_dir_structure a = ''prisma'' then
        (let t = op_join (arg_datadir a) [''%02d+*'', ''*.nii''] in
         and_then (collect (\<lambda>r. glob_first w t [PInt r]) (arg_epis a)) (\<lambda>es.
         and_then (glob_first w t [PInt (arg_sbref a)]) (\<lambda>sb.
         and_then (int_of_arg w (arg_distortPE a)) (\<lambda>i.
         and_then (glob_first w t [PInt i]) (\<lambda>d1.
         and_then (int_of_arg w (arg_distortrevPE a)) (\<lambda>j.
         and_then (glob_first w t [PInt j]) (\<lambda>d2.
         Inr \<lparr>sc_nii_temp = t, sc_nii_fmap_temp = None, sc_epis = es, sc_sbref = sb,
              sc_distort_PE = d1, sc_distort_revPE = d2\<rparr>)))))))
      else if arg_dir_structure a = ''bids'' then
        (let t = op_join (arg_datadir a) [''%s'', ''*-%02d_%s.nii''];
             tf = op_join (arg_datadir a) [''%s'', ''*-%s_%s.nii''] in
         and_then (collect (\<lambda>r. glob_first w t [PStr ''func'', PInt r, PStr ''bold''])
                     (arg_epis a)) (\<lambda>es.
         and_then (glob_first w t [PStr ''func'', PInt (arg_sbref a), PStr ''sbref'']) (\<lambda>sb.
         and_then (glob_first w tf [PStr ''fmap'', PStr (arg_distortPE a), PStr ''epi'']) (\<lambda>d1.
         and_then (glob_first w tf [PStr ''fmap'', PStr (arg_distortrevPE a), PStr ''epi''])
           (\<lambda>d2.
         Inr \<lparr>sc_nii_temp = t, sc_nii_fmap_temp = Some tf, sc_epis = es, sc_sbref = sb,
              sc_distort_PE = d1, sc_distort_revPE = d2\<rparr>)))))
      else Inl (Exception (''Don't know what to do with dir_structure ''
                             @ arg_dir_structure a @ ''!'')))"

subsection \<open>\<open>main\<close>, lines 85 to 95: output and working directory\<close>

text \<open>
  \<^verbatim>\<open>
  session['out'] = args['outdir']
  if not op.exists(session['out']):
      os.makedirs(session['out'])
  if args['working_dir'] is not None:
      session['working_dir'] = args['working_dir']
  else:
      session['working_dir'] = session['out']
  if not op.exists(session["working_dir"]):
      os.makedirs(session['working_dir'])
  \<close>
  The result is the pair of directories and the file system after the block.
\<close>

definition ensure_dir :: "'f world \<Rightarrow> string \<Rightarrow> string set \<Rightarrow> error + string set" where
  "ensure_dir w p fs = (if p \<notin> fs then os_makedirs w p fs else Inr fs)"

definition main_dirs :: "'f world \<Rightarrow> args \<Rightarrow> string set \<Rightarrow> error + (string \<times> string \<times> string set)"
where
  "main_dirs w a fs =
     (let out_dir = arg_outdir a in
      and_then (ensure_dir w out_dir fs) (\<lambda>fs1.
        let wd = (case arg_working_dir a of Some d \<Rightarrow> d | None \<Rightarrow> out_dir) in
        and_then (ensure_dir w wd fs1) (\<lambda>fs2. Inr (out_dir, wd, fs2))))"

subsection \<open>\<open>main\<close>, lines 97 to 110: the plugin arguments\<close>

text \<open>
  \<^verbatim>\<open>
  try:
      session['plugin_args'][k] = int(v)
  except ValueError:
      try:
          session['plugin_args'][k] = float(v)
      except ValueError:
          session['plugin_args'][k] = v
  \<close>
\<close>

definition coerce :: "'f world \<Rightarrow> string \<Rightarrow> 'f pyval" where
  "coerce w v =
     (case py_int_limited (int_max_str_digits w) v of
        Some n \<Rightarrow> PInt n
      | None \<Rightarrow> (case py_float w v of Some x \<Rightarrow> PFloat x | None \<Rightarrow> PStr v))"

text \<open>The body of \<open>for arg in args['plugin_args'].split(',')\<close>, on the dictionary built so
  far; a later entry for a key replaces an earlier one.\<close>

fun plugin_args_loop ::
  "'f world \<Rightarrow> string list \<Rightarrow> (string \<rightharpoonup> 'f pyval) \<Rightarrow> error + (string \<rightharpoonup> 'f pyval)"
where
  "plugin_args_loop w [] d = Inr d"
| "plugin_args_loop w (arg # rest) d =
     (if length (split_py CHR '':'' arg) \<noteq> 2 then
        Inl (Exception
          ''Your plugin_args is incorrectly formatted, each should contain one colon!'')
      else (case split_py CHR '':'' arg of
              [k, v] \<Rightarrow> plugin_args_loop w rest (d(k \<mapsto> coerce w v))
            | _ \<Rightarrow> Inl ValueError))"

definition parse_plugin_args ::
  "'f world \<Rightarrow> string option \<Rightarrow> error + (string \<rightharpoonup> 'f pyval)"
where
  "parse_plugin_args w a =
     (case a of
        None \<Rightarrow> Inr Map.empty
      | Some s \<Rightarrow> plugin_args_loop w (split_py CHR '','' s) Map.empty)"

text \<open>A string of the form \<open>key:value[,key:value...]\<close>, written from its pairs, and the
  condition that a key or a value contains neither separator.\<close>

definition render_plugin_args :: "(string \<times> string) list \<Rightarrow> string" where
  "render_plugin_args kvs = join_py '','' (map (\<lambda>(k, v). k @ '':'' @ v) kvs)"

definition no_sep :: "string \<Rightarrow> bool" where
  "no_sep w = (CHR '','' \<notin> set w \<and> CHR '':'' \<notin> set w)"

subsection \<open>\<open>main\<close>, lines 61 to 117: from the arguments to the session\<close>

text \<open>
  The session as it is when \<open>create_preproc_workflow\<close> is called, with the file system at
  that moment; \<open>session.json\<close> has been written into the output directory by then.
\<close>

definition main_session :: "'f world \<Rightarrow> args \<Rightarrow> string set \<Rightarrow> error + ('f session \<times> string set)"
where
  "main_session w a fs =
     and_then (find_scans w a) (\<lambda>sc.
     and_then (main_dirs w a fs) (\<lambda>(out_dir, wd, fs2).
     and_then (parse_plugin_args w (arg_plugin_args a)) (\<lambda>pa.
     and_then (os_write w (op_join out_dir [''session.json'']) fs2) (\<lambda>fs3.
       Inr (\<lparr>subj = arg_subject a, data = arg_datadir a,
             nii_temp = sc_nii_temp sc, nii_fmap_temp = sc_nii_fmap_temp sc,
             epis = sc_epis sc, sbref = sc_sbref sc,
             distort_PE = sc_distort_PE sc, distort_revPE = sc_distort_revPE sc,
             PE_dim = arg_PEdim a, out = out_dir, working_dir = wd,
             plugin_args = pa, plugin = arg_plugin a\<rparr>, fs3)))))"

text \<open>What \<open>os.makedirs\<close> and writing a file promise when they succeed: the path made
  exists afterwards, and nothing that existed is gone.\<close>

definition os_keeps :: "'f world \<Rightarrow> bool" where
  "os_keeps w =
     ((\<forall>p fs fs'. os_makedirs w p fs = Inr fs' \<longrightarrow> p \<in> fs' \<and> fs \<subseteq> fs')
      \<and> (\<forall>p fs fs'. os_write w p fs = Inr fs' \<longrightarrow> fs \<subseteq> fs'))"

subsection \<open>\<open>create_preproc_workflow\<close>: distortion correction (lines 168 to 173)\<close>

text \<open>\<open>np.repeat(xs, n)\<close> on a flat list repeats each element \<open>n\<close> times, in order.\<close>

definition np_repeat :: "'a list \<Rightarrow> nat \<Rightarrow> 'a list" where
  "np_repeat xs n = concat (map (replicate n) xs)"

record topup_inputs =
  encoding_direction :: "string list"
  readout_times :: "int list"
  config :: string

text \<open>
  \<^verbatim>\<open>
  PEs = np.repeat([session['PE_dim'], session['PE_dim'] + '-'], 3)
  unwarp_dist = Node(fsl.TOPUP(encoding_direction=list(PEs),
                               readout_times=[1, 1, 1, 1, 1, 1],
                               config='b02b0.cnf'),
                     name='unwarp_distort')
  \<close>
\<close>

definition unwarp_dist :: "'f session \<Rightarrow> topup_inputs" where
  "unwarp_dist s =
     (let PEs = np_repeat [PE_dim s, PE_dim s @ ''-''] 3
      in \<lparr>encoding_direction = PEs,
          readout_times = [1, 1, 1, 1, 1, 1],
          config = ''b02b0.cnf''\<rparr>)"

subsection \<open>\<open>create_preproc_workflow\<close>: the data sink's substitutions (lines 246 to 248)\<close>

text \<open>
  \<^verbatim>\<open>
  substitutions = [('_merge_epis%d/timeseries_corrected.nii.gz' % r,
                    'timeseries_corrected_run%02d.nii.gz' % (r+1))
                   for r in np.arange(len(session['epis']))]
  \<close>
\<close>

definition substitutions :: "'f session \<Rightarrow> (string \<times> string) list" where
  "substitutions s =
     map (\<lambda>r. (''_merge_epis'' @ fmt_d (int r) @ ''/timeseries_corrected.nii.gz'',
               ''timeseries_corrected_run'' @ fmt_02d (int r + 1) @ ''.nii.gz''))
       [0..<length (epis s)]"

text \<open>A session that holds the given functional runs and nothing else of interest, for
  evaluating the workflow's construction on concrete run lists.\<close>

definition session_of_epis :: "string list \<Rightarrow> unit session" where
  "session_of_epis es =
     \<lparr>subj = ''sub-01'', data = ''/data'', nii_temp = ''/data/%02d+*/*.nii'',
      nii_fmap_temp = None, epis = es, sbref = ''/data/02+sbref/f.nii'',
      distort_PE = ''/data/03+ap/f.nii'', distort_revPE = ''/data/04+pa/f.nii'',
      PE_dim = ''y'', out = ''/out'', working_dir = ''/out'',
      plugin_args = Map.empty, plugin = ''MultiProc''\<rparr>"

text \<open>The value of a string of decimal digits, read from the left.\<close>

definition dec_val :: "nat \<Rightarrow> string \<Rightarrow> nat" where
  "dec_val acc s = foldl (\<lambda>a c. 10 * a + digit_val c) acc s"

subsection \<open>\<open>create_preproc_workflow\<close>: the warp field for the EPI correction (lines 228 and 235)\<close>

text \<open>
  What travels along a connection: a file, or a list (of files, or of lists again for the
  outputs of a \<open>MapNode\<close> over runs and volumes).
\<close>

datatype val = File string | Files "val list"

text \<open>
  \<^verbatim>\<open>get_warp = lambda warpfields: warpfields[0]\<close>
  Indexing an empty sequence raises \<open>IndexError\<close>; the first element of a string is the
  string of its first character.
\<close>

fun get_warp :: "val \<Rightarrow> error + val" where
  "get_warp (Files []) = Inl IndexError"
| "get_warp (Files (w # ws)) = Inr w"
| "get_warp (File []) = Inl IndexError"
| "get_warp (File (c # cs)) = Inr (File [c])"

section \<open>The pipeline engine of the specification\<close>

text \<open>
  Modelled from the spec: the expansion of a FanOutStage (spec 3 and 4.3). The script only
  declares its \<open>MapNode\<close>s; what expands them is nipype, which is not part of the
  repository. The iterated slots come in their declared order, each with the list it
  resolved to; an element of the expansion binds every iterated slot to one value.

  Without nesting the lists are walked together, one step taking the next value of every
  list, and lists of different lengths are refused; with nesting every value of the first
  slot is combined with every element of the expansion of the remaining slots.
\<close>

fun zip_slots :: "(string \<times> 'v list) list \<Rightarrow> (string \<times> 'v) list list" where
  "zip_slots [] = []"
| "zip_slots [(n, l)] = map (\<lambda>x. [(n, x)]) l"
| "zip_slots ((n, l) # rest) = map2 (\<lambda>x e. (n, x) # e) l (zip_slots rest)"

fun cross_slots :: "(string \<times> 'v list) list \<Rightarrow> (string \<times> 'v) list list" where
  "cross_slots [] = [[]]"
| "cross_slots ((n, l) # rest) =
     concat (map (\<lambda>x. map (\<lambda>e. (n, x) # e) (cross_slots rest)) l)"

definition same_length :: "(string \<times> 'v list) list \<Rightarrow> bool" where
  "same_length slots = (\<forall>(n, l) \<in> set slots. length l = length (snd (hd slots)))"

definition expand :: "bool \<Rightarrow> (string \<times> 'v list) list \<Rightarrow> error + (string \<times> 'v) list list" where
  "expand nested slots =
     (if nested then Inr (cross_slots slots)
      else if same_length slots then Inr (zip_slots slots)
      else Inl FanOutArityError)"

text \<open>
  Modelled from the spec: running a FanOutStage (spec 4.3). The operation runs once per
  element, on the fixed inputs together with the element's bindings; the outputs are
  collected in expansion order, and one failing element fails the stage with no output
  list.
\<close>

definition run_fan_out ::
  "((string \<times> 'v) list \<Rightarrow> error + 'o) \<Rightarrow> (string \<times> 'v) list \<Rightarrow> bool \<Rightarrow> (string \<times> 'v list) list
     \<Rightarrow> error + 'o list"
where
  "run_fan_out operation fixed nested slots =
     and_then (expand nested slots) (collect (\<lambda>e. operation (fixed @ e)))"

text \<open>
  Modelled from the spec: the two kinds of stage and what an output slot holds once the
  stage has run (spec 3 and 4.3). A plain Stage runs its operation once, on its fixed
  inputs, and the slot holds that one value; a FanOutStage, nested or not, runs it once per
  element of its expansion and the slot holds the list of the elements' values.
\<close>

datatype stage_kind = PlainStage | FanOutStage bool

datatype 'o slot_value = Scalar 'o | ListOf "'o list"

definition run_stage ::
  "stage_kind \<Rightarrow> ((string \<times> 'v) list \<Rightarrow> error + 'o) \<Rightarrow> (string \<times> 'v) list
     \<Rightarrow> (string \<times> 'v list) list \<Rightarrow> error + 'o slot_value"
where
  "run_stage kind operation fixed slots =
     (case kind of
        PlainStage \<Rightarrow> and_then (operation fixed) (\<lambda>y. Inr (Scalar y))
      | FanOutStage nested \<Rightarrow>
          and_then (run_fan_out operation fixed nested slots) (\<lambda>ys. Inr (ListOf ys)))"

text \<open>
  Modelled from the spec: a Connection with its combination rule (spec 3 and 4.4), and
  the rule \<open>index_select(i)\<close>, which walks down the list to element \<open>i\<close>. The script has
  no Connection type; selecting from a list that has no element \<open>i\<close> fails as list
  indexing does.
\<close>

datatype combination = Direct | Broadcast | IndexSelect nat | Zip | Cross

record connection =
  source_stage :: string
  source_slot :: string
  target_stage :: string
  target_slot :: string
  combination :: combination

fun index_select :: "nat \<Rightarrow> 'v list \<Rightarrow> error + 'v" where
  "index_select i [] = Inl IndexError"
| "index_select 0 (x # xs) = Inr x"
| "index_select (Suc i) (x # xs) = index_select i xs"

text \<open>
  Modelled from the spec: the value a Connection hands to a scalar input slot of a plain
  Stage, given what the source's output slot holds (spec 4.4 and 9). A single value
  passes under \<open>direct\<close>; a list is narrowed to one element under \<open>index_select(i)\<close>; any
  other pairing of rule and value is an arity mismatch and is refused, so that a list is
  never cut down by a rule that does not say so.
\<close>

fun bind_scalar :: "combination \<Rightarrow> 'o slot_value \<Rightarrow> error + 'o" where
  "bind_scalar Direct (Scalar x) = Inr x"
| "bind_scalar (IndexSelect i) (ListOf xs) = index_select i xs"
| "bind_scalar r v = Inl FanOutArityError"

definition deliver_scalar :: "connection \<Rightarrow> 'o slot_value \<Rightarrow> error + 'o" where
  "deliver_scalar c v = bind_scalar (combination c) v"

text \<open>An interpreter and a file system on which every operation succeeds: \<open>int()\<close> takes
  up to 4300 digits, \<open>float()\<close> knows one literal, the \<open>%\<close> operator leaves its template as it is, \<open>glob\<close> finds the pattern
  itself, and making a directory or writing a file adds the path.\<close>

definition example_world :: "rat world" where
  "example_world =
     \<lparr>int_max_str_digits = 4300,
      py_float = (\<lambda>s. if s = ''5.5'' then Some (11 / 2) else None),
      py_format = (\<lambda>t vs. Inr t),
      os_glob = (\<lambda>p. [p]),
      os_makedirs = (\<lambda>p fs. Inr (insert p fs)),
      os_write = (\<lambda>p fs. Inr (insert p fs))\<rparr>"

definition example_args :: args where
  "example_args =
     \<lparr>arg_subject = ''sub-01'', arg_datadir = ''/data'', arg_outdir = ''/out'',
      arg_epis = [5, 6], arg_sbref = 4, arg_distortPE = ''7'', arg_distortrevPE = ''8'',
      arg_PEdim = ''y'', arg_plugin = ''MultiProc'', arg_working_dir = None,
      arg_dir_structure = ''prisma'', arg_plugin_args = Some ''n_procs:2''\<rparr>"

section \<open>Theorems\<close>

subsection \<open>Decimal numerals\<close>

lemma digit_char_props:
  assumes "d < 10"
  shows "is_digit (digit_char d) \<and> digit_val (digit_char d) = d"
proof -
  from assms have "d \<in> {0, 1, 2, 3, 4, 5, 6, 7, 8, 9}" by auto
  then show ?thesis
    by (auto simp: digit_char_def is_digit_def digit_val_def)
qed

lemma is_digit_not_special:
  "is_digit c \<Longrightarrow> \<not> is_space c \<and> c \<noteq> CHR ''-'' \<and> c \<noteq> CHR ''+''"
  by (auto simp: is_digit_def is_space_def)

lemma dec_nonempty: "dec n \<noteq> []"
  by (subst dec.simps) simp

lemma length_dec: "length (dec n) = (if n < 10 then 1 else Suc (length (dec (n div 10))))"
  by (subst dec.simps) simp

lemma dec_all_digits: "\<forall>c \<in> set (dec n). is_digit c"
proof (induction n rule: dec.induct)
  case (1 n)
  show ?case
  proof (cases "n < 10")
    case True
    then show ?thesis by (subst dec.simps) (simp add: digit_char_props)
  next
    case False
    then have "\<forall>c \<in> set (dec (n div 10)). is_digit c" using 1 by simp
    moreover have "is_digit (digit_char (n mod 10))" by (simp add: digit_char_props)
    ultimately show ?thesis using False by (subst dec.simps) auto
  qed
qed

lemma dec_val_dec: "dec_val 0 (dec n) = n"
proof (induction n rule: dec.induct)
  case (1 n)
  show ?case
  proof (cases "n < 10")
    case True
    then show ?thesis by (subst dec.simps) (simp add: dec_val_def digit_char_props)
  next
    case False
    then have "dec_val 0 (dec (n div 10)) = n div 10" using 1 by simp
    then show ?thesis using False
      by (subst dec.simps) (simp add: dec_val_def digit_char_props)
  qed
qed

lemma dig_seq_digits:
  "\<forall>c \<in> set s. is_digit c \<Longrightarrow> dig_seq acc s = Some (dec_val acc s)"
  by (induction s arbitrary: acc) (simp_all add: dec_val_def)

lemma digits_value_digits:
  "s \<noteq> [] \<Longrightarrow> \<forall>c \<in> set s. is_digit c \<Longrightarrow> digits_value s = Some (dec_val 0 s)"
  by (cases s) (simp_all add: digits_value_def dig_seq_digits, simp add: dec_val_def)

lemma dropWhile_no_space: "\<forall>c \<in> set t. \<not> is_space c \<Longrightarrow> dropWhile is_space t = t"
  by (cases t) auto

lemma strip_no_space: "\<forall>c \<in> set s. \<not> is_space c \<Longrightarrow> strip s = s"
  by (simp add: strip_def dropWhile_no_space)

lemma py_int_digits:
  assumes "s \<noteq> []" "\<forall>c \<in> set s. is_digit c"
  shows "py_int s = Some (int (dec_val 0 s))"
proof -
  have "strip s = s"
    using assms(2) by (intro strip_no_space) (auto dest: is_digit_not_special)
  moreover obtain c cs where s: "s = c # cs" using assms(1) by (cases s) auto
  moreover have "c \<noteq> CHR ''-''" "c \<noteq> CHR ''+''"
    using assms(2) s is_digit_not_special by auto
  ultimately show ?thesis using digits_value_digits[OF assms] by (simp add: py_int_def)
qed

lemma dec_val_zeros: "dec_val 0 (replicate k CHR ''0'' @ s) = dec_val 0 s"
  by (induction k) (simp_all add: dec_val_def digit_val_def)

lemma py_int_fmt_02d: "0 \<le> i \<Longrightarrow> py_int (fmt_02d i) = Some i"
proof -
  assume i: "0 \<le> i"
  let ?s = "replicate (2 - length (dec (nat i))) CHR ''0'' @ dec (nat i)"
  have z: "is_digit CHR ''0''" by (simp add: is_digit_def)
  have "?s \<noteq> []" by (simp add: dec_nonempty)
  moreover have "\<forall>c \<in> set ?s. is_digit c" using dec_all_digits z by auto
  ultimately have "py_int ?s = Some (int (dec_val 0 ?s))" by (rule py_int_digits)
  then show ?thesis using i by (simp add: fmt_02d_def dec_val_zeros dec_val_dec)
qed

lemma length_fmt_02d:
  "0 \<le> i \<Longrightarrow> 2 \<le> length (fmt_02d i) \<and> (i < 100 \<longrightarrow> length (fmt_02d i) = 2)"
  by (cases "nat i < 10") (auto simp: fmt_02d_def length_dec)

lemma fmt_02d_one_digit:
  assumes "0 \<le> i" and "i < 10"
  shows "fmt_02d i = [CHR ''0'', digit_char (nat i)]"
proof -
  from assms have "nat i < 10" by simp
  then have "dec (nat i) = [digit_char (nat i)]" by (subst dec.simps) simp
  with assms(1) show ?thesis by (simp add: fmt_02d_def)
qed

subsection \<open>Splitting and joining\<close>

lemma split_py_no_sep: "sep \<notin> set w \<Longrightarrow> split_py sep w = [w]"
  by (induction w) auto

lemma split_py_append:
  "sep \<notin> set w \<Longrightarrow> split_py sep (w @ sep # rest) = w # split_py sep rest"
  by (induction w) auto

lemma split_py_join:
  "ws \<noteq> [] \<Longrightarrow> \<forall>w \<in> set ws. sep \<notin> set w \<Longrightarrow> split_py sep (join_py [sep] ws) = ws"
proof (induction ws)
  case Nil
  then show ?case by simp
next
  case (Cons w ws)
  show ?case
  proof (cases ws)
    case Nil
    then show ?thesis using Cons.prems by (simp add: split_py_no_sep)
  next
    case (Cons y ys)
    then show ?thesis using Cons.IH Cons.prems by (simp add: split_py_append)
  qed
qed

lemma split_pair:
  "no_sep k \<Longrightarrow> no_sep v \<Longrightarrow> split_py CHR '':'' (k @ CHR '':'' # v) = [k, v]"
  by (simp add: no_sep_def split_py_append split_py_no_sep)

lemma loop_rendered:
  "\<forall>(k, v) \<in> set kvs. no_sep k \<and> no_sep v \<Longrightarrow>
   plugin_args_loop w (map (\<lambda>(k, v). k @ '':'' @ v) kvs) d
     = Inr (d ++ map_of (rev (map (\<lambda>(k, v). (k, coerce w v)) kvs)))"
proof (induction kvs arbitrary: d)
  case Nil
  then show ?case by simp
next
  case (Cons kv kvs)
  obtain k v where kv: "kv = (k, v)" by (cases kv)
  have cl: "no_sep k" "no_sep v" using Cons.prems kv by auto
  have rest: "\<forall>(k, v) \<in> set kvs. no_sep k \<and> no_sep v" using Cons.prems by auto
  let ?c = "coerce w v"
  let ?m = "map_of (rev (map (\<lambda>(k, v). (k, coerce w v)) kvs))"
  have "plugin_args_loop w (map (\<lambda>(k, v). k @ '':'' @ v) (kv # kvs)) d
          = plugin_args_loop w (map (\<lambda>(k, v). k @ '':'' @ v) kvs) (d(k \<mapsto> ?c))"
    using cl kv by (simp add: split_pair)
  also have "\<dots> = Inr (d(k \<mapsto> ?c) ++ ?m)"
    by (rule Cons.IH[OF rest])
  also have "d(k \<mapsto> ?c) ++ ?m
               = d ++ map_of (rev (map (\<lambda>(k, v). (k, coerce w v)) (kv # kvs)))"
    by (rule ext) (simp add: kv map_add_def split: option.splits)
  finally show ?case .
qed

subsection \<open>The session\<close>

lemma ensure_dir_keeps:
  assumes "os_keeps w" and "ensure_dir w p fs = Inr fs'"
  shows "p \<in> fs' \<and> fs \<subseteq> fs'"
  using assms by (auto simp: ensure_dir_def os_keeps_def split: if_splits)

lemma main_dirs_result:
  assumes "os_keeps w" and "main_dirs w a fs = Inr (out_dir, wd, fs')"
  shows "out_dir = arg_outdir a
       \<and> wd = (case arg_working_dir a of Some d \<Rightarrow> d | None \<Rightarrow> arg_outdir a)
       \<and> out_dir \<in> fs' \<and> wd \<in> fs' \<and> fs \<subseteq> fs'"
proof -
  from assms(2) obtain fs1 where
    e1: "ensure_dir w (arg_outdir a) fs = Inr fs1" and
    e2: "ensure_dir w (case arg_working_dir a of Some d \<Rightarrow> d | None \<Rightarrow> arg_outdir a) fs1
           = Inr fs'" and
    o: "out_dir = arg_outdir a" and
    d: "wd = (case arg_working_dir a of Some d \<Rightarrow> d | None \<Rightarrow> arg_outdir a)"
    by (auto simp: main_dirs_def and_then_def Let_def split: sum.splits)
  from ensure_dir_keeps[OF assms(1) e1] ensure_dir_keeps[OF assms(1) e2] o d
  show ?thesis by auto
qed

text \<open>
  C10. When the script reaches the construction of the workflow, the session's output
  directory is the \<open>-outdir\<close> argument; the working directory is the output directory when
  no \<open>-working_dir\<close> was given and the given one otherwise; and both directories exist (the
  operating system is only taken to keep its promise: a directory made exists, nothing
  that existed disappears).
\<close>

theorem working_dir_default_and_dirs_exist:
  assumes "os_keeps w" and "main_session w a fs = Inr (s, fs')"
  shows "out s = arg_outdir a
       \<and> (arg_working_dir a = None \<longrightarrow> working_dir s = out s)
       \<and> (\<forall>d. arg_working_dir a = Some d \<longrightarrow> working_dir s = d)
       \<and> out s \<in> fs' \<and> working_dir s \<in> fs' \<and> fs \<subseteq> fs'"
proof -
  from assms(2) obtain sc out_dir wd fs2 pa where
    md: "main_dirs w a fs = Inr (out_dir, wd, fs2)" and
    wr: "os_write w (op_join out_dir [''session.json'']) fs2 = Inr fs'" and
    o: "out s = out_dir" and d: "working_dir s = wd"
    by (auto simp: main_session_def and_then_def split: sum.splits prod.splits)
  from wr assms(1) have sub: "fs2 \<subseteq> fs'" by (auto simp: os_keeps_def)
  from main_dirs_result[OF assms(1) md] sub o d show ?thesis
    by (auto split: option.splits)
qed

theorem working_dir_default_and_dirs_exist_witness:
  "(\<exists>s fs'. main_session example_world example_args {} = Inr (s, fs')
       \<and> out s = ''/out'' \<and> working_dir s = ''/out'' \<and> ''/out'' \<in> fs')"
proof -
  have k: "os_keeps example_world"
    by (auto simp: os_keeps_def example_world_def)
  have i7: "py_int_limited 4300 ''7'' = Some 7" and i8: "py_int_limited 4300 ''8'' = Some 8"
    and i2: "py_int_limited 4300 ''2'' = Some 2"
    by code_simp+
  have sp: "split_py CHR '','' ''n_procs:2'' = [''n_procs:2'']"
    "split_py CHR '':'' ''n_procs:2'' = [''n_procs'', ''2'']"
    by code_simp+
  obtain s fs' where r: "main_session example_world example_args {} = Inr (s, fs')"
    by (simp add: main_session_def find_scans_def main_dirs_def ensure_dir_def
        glob_first_def int_of_arg_def parse_plugin_args_def coerce_def and_then_def Let_def
        example_world_def example_args_def i7 i8 i2 sp)
  from working_dir_default_and_dirs_exist[OF k r]
  have "out s = ''/out'' \<and> working_dir s = ''/out'' \<and> ''/out'' \<in> fs'"
    by (auto simp: example_args_def)
  with r show ?thesis by blast
qed

subsection \<open>What \<open>int()\<close> accepts\<close>

lemma of_char_nat_inj: "(of_char c :: nat) = of_char d \<Longrightarrow> c = d"
  by simp
lemma in_digs: "(48::nat) \<le> n \<Longrightarrow> n \<le> 57 \<Longrightarrow> n \<in> {48, 49, 50, 51, 52, 53, 54, 55, 56, 57}" by (simp) presburger
lemma is_digit_iff: "is_digit c \<longleftrightarrow> c \<in> decimal_digits"
proof
  assume "is_digit c"
  then have "(of_char c :: nat) \<in> {48, 49, 50, 51, 52, 53, 54, 55, 56, 57}"
    unfolding is_digit_def by (intro in_digs) simp_all
  then have "(of_char c :: nat) \<in> of_char ` decimal_digits"
    by (simp add: decimal_digits_def)
  then show "c \<in> decimal_digits" by (auto dest: of_char_nat_inj)
next
  assume "c \<in> decimal_digits"
  then show "is_digit c" by (auto simp: decimal_digits_def is_digit_def)
qed

lemma is_space_iff: "is_space c \<longleftrightarrow> c \<in> white_space"
proof
  assume "is_space c"
  then have "(of_char c :: nat) \<in> of_char ` white_space"
    by (simp add: is_space_def white_space_def)
  then show "c \<in> white_space" by (auto dest: of_char_nat_inj)
next
  assume "c \<in> white_space"
  then show "is_space c" by (auto simp: white_space_def is_space_def)
qed

lemma base_ten_Cons:
  "base_ten (c # s) = (of_char c - of_char CHR ''0'') * 10 ^ length s + base_ten s"
  by (simp only: base_ten_def length_Cons sum.lessThan_Suc_shift) simp

lemma dec_val_base_ten: "dec_val acc s = acc * 10 ^ length s + base_ten s"
proof (induction s arbitrary: acc)
  case Nil
  then show ?case by (simp add: dec_val_def base_ten_def)
next
  case (Cons c s)
  have "dec_val acc (c # s) = dec_val (10 * acc + digit_val c) s" by (simp add: dec_val_def)
  also have "\<dots> = (10 * acc + digit_val c) * 10 ^ length s + base_ten s" by (rule Cons.IH)
  finally show ?case by (simp add: base_ten_Cons digit_val_def algebra_simps)
qed

lemma underscore_no_digit: "CHR ''_'' \<notin> decimal_digits"
  by (simp add: decimal_digits_def)

lemma dec_val_Cons: "dec_val acc (c # s) = dec_val (10 * acc + digit_val c) s"
  by (simp add: dec_val_def)

lemma dig_seq_iff:
  "dig_seq acc cs = Some m \<longleftrightarrow>
     set cs \<subseteq> insert CHR ''_'' decimal_digits
     \<and> (cs \<noteq> [] \<longrightarrow> last cs \<noteq> CHR ''_'')
     \<and> successively (\<lambda>x y. x \<noteq> CHR ''_'' \<or> y \<noteq> CHR ''_'') cs
     \<and> m = dec_val acc (filter (\<lambda>c. c \<noteq> CHR ''_'') cs)"
proof (induction acc cs arbitrary: m rule: dig_seq.induct)
  case (1 acc)
  then show ?case by (auto simp: dec_val_def)
next
  case (2 acc c cs)
  show ?case
  proof (cases "is_digit c")
    case True
    then have c: "c \<in> decimal_digits" "c \<noteq> CHR ''_''"
      using underscore_no_digit by (auto simp: is_digit_iff)
    show ?thesis
      using True c "2.IH"(1)[OF True, of m]
      by (cases cs) (simp_all add: dec_val_Cons)
  next
    case False
    then have nd: "c \<notin> decimal_digits" by (simp add: is_digit_iff)
    show ?thesis
    proof (cases "c = CHR ''_''")
      case u: True
      show ?thesis
      proof (cases cs)
        case Nil
        then show ?thesis using False u by simp
      next
        case (Cons d ds)
        show ?thesis
        proof (cases "is_digit d")
          case dd: True
          then have d: "d \<in> decimal_digits" "d \<noteq> CHR ''_''"
            using underscore_no_digit by (auto simp: is_digit_iff)
          show ?thesis
            using False u Cons dd d "2.IH"(2)[OF False u Cons dd, of m]
            by (cases ds) (simp_all add: dec_val_Cons)
        next
          case dn: False
          then have "d \<notin> decimal_digits" by (simp add: is_digit_iff)
          then show ?thesis using False u Cons dn by auto
        qed
      qed
    next
      case nu: False
      then show ?thesis using False nd by auto
    qed
  qed
qed

lemma digits_value_iff:
  "digits_value s = Some m \<longleftrightarrow> literal_body s \<and> m = body_value s"
proof (cases s)
  case Nil
  then show ?thesis by (simp add: digits_value_def literal_body_def)
next
  case (Cons c cs)
  show ?thesis
  proof (cases "is_digit c")
    case True
    then have c: "c \<in> decimal_digits" "c \<noteq> CHR ''_''"
      using underscore_no_digit by (auto simp: is_digit_iff)
    have v: "dec_val (digit_val c) (filter (\<lambda>c. c \<noteq> CHR ''_'') cs) = body_value (c # cs)"
      using c by (simp add: body_value_def dec_val_base_ten base_ten_Cons digit_val_def)
    have lb: "literal_body (c # cs) \<longleftrightarrow>
        set cs \<subseteq> insert CHR ''_'' decimal_digits
        \<and> (cs \<noteq> [] \<longrightarrow> last cs \<noteq> CHR ''_'')
        \<and> successively (\<lambda>x y. x \<noteq> CHR ''_'' \<or> y \<noteq> CHR ''_'') cs"
      using c by (cases cs) (auto simp: literal_body_def)
    have "digits_value s = dig_seq (digit_val c) cs"
      using True Cons by (simp add: digits_value_def)
    then show ?thesis
      unfolding Cons lb by (simp only: dig_seq_iff v) blast
  next
    case False
    then have "c \<notin> decimal_digits" by (simp add: is_digit_iff)
    then show ?thesis using False Cons by (auto simp: digits_value_def literal_body_def)
  qed
qed


lemma strip_decomp:
  "\<exists>ws1 ws2. s = ws1 @ strip s @ ws2 \<and> set ws1 \<subseteq> white_space \<and> set ws2 \<subseteq> white_space"
proof -
  let ?t = "dropWhile is_space s"
  let ?w1 = "takeWhile is_space s"
  let ?w2 = "rev (takeWhile is_space (rev ?t))"
  have "strip s @ ?w2 = rev (takeWhile is_space (rev ?t) @ dropWhile is_space (rev ?t))"
    by (simp only: strip_def rev_append)
  also have "\<dots> = rev (rev ?t)" by (simp only: takeWhile_dropWhile_id)
  also have "\<dots> = ?t" by simp
  finally have t: "?t = strip s @ ?w2" by (rule sym)
  have "s = ?w1 @ ?t" by simp
  with t have "s = ?w1 @ strip s @ ?w2" by simp
  moreover have "set ?w1 \<subseteq> white_space" "set ?w2 \<subseteq> white_space"
    by (auto dest: set_takeWhileD simp: is_space_iff)
  ultimately show ?thesis by blast
qed

lemma dropWhile_hd: "t \<noteq> [] \<Longrightarrow> \<not> P (hd t) \<Longrightarrow> dropWhile P (t @ r) = t @ r"
  by (cases t) simp_all

lemma strip_shape:
  assumes "t \<noteq> []" and "\<not> is_space (hd t)" and "\<not> is_space (last t)"
    and "set ws1 \<subseteq> white_space" and "set ws2 \<subseteq> white_space"
  shows "strip (ws1 @ t @ ws2) = t"
proof -
  have "dropWhile is_space (ws1 @ t @ ws2) = dropWhile is_space (t @ ws2)"
    using assms(4) by (intro dropWhile_append2) (auto simp: is_space_iff)
  also have "\<dots> = t @ ws2" using assms(1,2) by (rule dropWhile_hd)
  finally have a: "dropWhile is_space (ws1 @ t @ ws2) = t @ ws2" .
  have "dropWhile is_space (rev ws2 @ rev t) = dropWhile is_space (rev t)"
    using assms(5) by (intro dropWhile_append2) (auto simp: is_space_iff)
  also have "\<dots> = rev t"
    using dropWhile_hd[of "rev t" is_space "[]"] assms(1,3) by (simp add: hd_rev)
  finally show ?thesis by (simp add: strip_def a)
qed

lemma literal_body_ends:
  assumes "literal_body b"
  shows "b \<noteq> [] \<and> is_digit (hd b) \<and> is_digit (last b)"
proof -
  from assms have ne: "b \<noteq> []" and sub: "set b \<subseteq> insert CHR ''_'' decimal_digits"
    and h: "hd b \<noteq> CHR ''_''" and l: "last b \<noteq> CHR ''_''"
    by (simp_all add: literal_body_def)
  have "hd b \<in> decimal_digits" using sub h hd_in_set[OF ne] by blast
  moreover have "last b \<in> decimal_digits" using sub l last_in_set[OF ne] by blast
  ultimately show ?thesis using ne by (simp add: is_digit_iff)
qed

lemma py_int_iff: "py_int v = Some n \<longleftrightarrow> int_literal v n"
proof
  assume p: "py_int v = Some n"
  obtain ws1 ws2 where d: "v = ws1 @ strip v @ ws2"
    and w: "set ws1 \<subseteq> white_space" "set ws2 \<subseteq> white_space"
    using strip_decomp[of v] by blast
  from p obtain c cs where s: "strip v = c # cs"
    by (cases "strip v") (simp_all add: py_int_def)
  consider (minus) "c = CHR ''-''" | (plus) "c = CHR ''+''"
    | (none) "c \<noteq> CHR ''-''" "c \<noteq> CHR ''+''" by blast
  then show "int_literal v n"
  proof cases
    case minus
    with p s obtain m where "digits_value cs = Some m" and n: "n = - int m"
      by (auto simp: py_int_def)
    then have "literal_body cs" "m = body_value cs" by (simp_all add: digits_value_iff)
    moreover have "v = ws1 @ ''-'' @ cs @ ws2" using d s minus by simp
    ultimately show ?thesis unfolding int_literal_def using w n by blast
  next
    case plus
    with p s obtain m where "digits_value cs = Some m" and n: "n = int m"
      by (auto simp: py_int_def)
    then have "literal_body cs" "m = body_value cs" by (simp_all add: digits_value_iff)
    moreover have "v = ws1 @ ''+'' @ cs @ ws2" using d s plus by simp
    ultimately show ?thesis unfolding int_literal_def using w n by blast
  next
    case none
    with p s obtain m where "digits_value (c # cs) = Some m" and n: "n = int m"
      by (auto simp: py_int_def)
    then have "literal_body (c # cs)" "m = body_value (c # cs)"
      by (simp_all add: digits_value_iff)
    moreover have "v = ws1 @ [] @ (c # cs) @ ws2" using d s by simp
    ultimately show ?thesis unfolding int_literal_def using w n by blast
  qed
next
  assume "int_literal v n"
  then obtain ws1 sg b ws2 where v: "v = ws1 @ sg @ b @ ws2"
    and w: "set ws1 \<subseteq> white_space" "set ws2 \<subseteq> white_space"
    and b: "literal_body b"
    and sg: "sg = [] \<and> n = int (body_value b)
           \<or> sg = ''+'' \<and> n = int (body_value b)
           \<or> sg = ''-'' \<and> n = - int (body_value b)"
    unfolding int_literal_def by blast
  from literal_body_ends[OF b] have ne: "b \<noteq> []" and hb: "is_digit (hd b)"
    and lb: "is_digit (last b)" by simp_all
  from b have dv: "digits_value b = Some (body_value b)" by (simp add: digits_value_iff)
  obtain c cs where bc: "b = c # cs" using ne by (cases b) auto
  from hb bc have cd: "c \<noteq> CHR ''-''" "c \<noteq> CHR ''+''" "\<not> is_space c"
    using is_digit_not_special[of c] by simp_all
  have sp: "\<not> is_space CHR ''-''" "\<not> is_space CHR ''+''" by (simp_all add: is_space_def)
  have t: "sg @ b \<noteq> []" "\<not> is_space (hd (sg @ b))" "\<not> is_space (last (sg @ b))"
    using ne sg bc cd sp lb is_digit_not_special[of "last b"] by auto
  have "strip (ws1 @ (sg @ b) @ ws2) = sg @ b" by (rule strip_shape[OF t w])
  then have st: "strip v = sg @ b" by (simp add: v)
  from sg show "py_int v = Some n"
  proof (elim disjE conjE)
    assume "sg = []" "n = int (body_value b)"
    then show ?thesis using st bc cd dv by (simp add: py_int_def)
  next
    assume "sg = ''+''" "n = int (body_value b)"
    then show ?thesis using st dv by (simp add: py_int_def)
  next
    assume "sg = ''-''" "n = - int (body_value b)"
    then show ?thesis using st dv by (simp add: py_int_def)
  qed
qed

lemma count_digits:
  "length (filter is_digit v) = length (filter (\<lambda>c. c \<in> decimal_digits) v)"
proof -
  have "is_digit = (\<lambda>c. c \<in> decimal_digits)" by (rule ext) (rule is_digit_iff)
  then show ?thesis by (simp only:)
qed

lemma py_int_limited_iff:
  "py_int_limited k v = Some n \<longleftrightarrow> int_literal v n \<and> within_digit_limit k v"
  unfolding py_int_limited_def within_digit_limit_def Let_def count_digits
  by (auto simp: py_int_iff)

subsection \<open>The plugin arguments\<close>



subsection \<open>The workflow\<close>

lemma np_repeat_length: "length (np_repeat xs n) = length xs * n"
  by (induction xs) (simp_all add: np_repeat_def)

text \<open>
  C9. Whatever the session holds (in particular whatever the two distortion scans are), the
  distortion-correction node gets exactly six encoding directions, the phase-encode
  dimension three times and then the phase-encode dimension followed by \<open>-\<close> three times,
  together with six readout times that are all 1.
\<close>

theorem unwarp_dist_six_entries:
  "encoding_direction (unwarp_dist s) =
     replicate 3 (PE_dim s) @ replicate 3 (PE_dim s @ ''-'')
   \<and> length (encoding_direction (unwarp_dist s)) = 6
   \<and> readout_times (unwarp_dist s) = replicate 6 1
   \<and> length (readout_times (unwarp_dist s)) = length (encoding_direction (unwarp_dist s))
   \<and> unwarp_dist (s\<lparr>distort_PE := d1, distort_revPE := d2, epis := es, sbref := sb\<rparr>)
       = unwarp_dist s"
  by (simp add: unwarp_dist_def np_repeat_def numeral_eq_Suc)

text \<open>
  C6, as the code has it. The substitution list has one pair per functional run, in run
  order. Pair \<open>k\<close> (counted from 0) renames the merged file of element \<open>k\<close> to
  \<open>timeseries_corrected_run<index>.nii.gz\<close>, where the index is the decimal numeral of
  \<open>k + 1\<close> padded with zeros to at least two digits: it reads back as \<open>k + 1\<close>, has exactly
  two digits for the first 99 runs and a leading zero for the first 9. Three runs give
  the suffixes \<open>_run01\<close>, \<open>_run02\<close>, \<open>_run03\<close> in list order.
\<close>

theorem substitutions_run_index:
  "length (substitutions s) = length (epis s)
   \<and> (\<forall>k < length (epis s).
        substitutions s ! k
          = (''_merge_epis'' @ fmt_d (int k) @ ''/timeseries_corrected.nii.gz'',
             ''timeseries_corrected_run'' @ fmt_02d (int k + 1) @ ''.nii.gz'')
        \<and> py_int (fmt_02d (int k + 1)) = Some (int k + 1)
        \<and> 2 \<le> length (fmt_02d (int k + 1))
        \<and> (k < 99 \<longrightarrow> length (fmt_02d (int k + 1)) = 2)
        \<and> (k < 9 \<longrightarrow> fmt_02d (int k + 1) = [CHR ''0'', digit_char (k + 1)]))
   \<and> (length (epis s) = 3 \<longrightarrow>
        map snd (substitutions s)
          = [''timeseries_corrected_run01.nii.gz'',
             ''timeseries_corrected_run02.nii.gz'',
             ''timeseries_corrected_run03.nii.gz''])"
proof -
  have three: "[0..<3] = [0, 1, 2]" by (simp add: upt_rec)
  have "length (epis s) = 3 \<longrightarrow>
        map snd (substitutions s)
          = [''timeseries_corrected_run01.nii.gz'',
             ''timeseries_corrected_run02.nii.gz'',
             ''timeseries_corrected_run03.nii.gz'']"
    by (simp add: substitutions_def three fmt_02d_def dec.simps digit_char_def)
  moreover have "\<forall>k < length (epis s).
        substitutions s ! k
          = (''_merge_epis'' @ fmt_d (int k) @ ''/timeseries_corrected.nii.gz'',
             ''timeseries_corrected_run'' @ fmt_02d (int k + 1) @ ''.nii.gz'')
        \<and> py_int (fmt_02d (int k + 1)) = Some (int k + 1)
        \<and> 2 \<le> length (fmt_02d (int k + 1))
        \<and> (k < 99 \<longrightarrow> length (fmt_02d (int k + 1)) = 2)
        \<and> (k < 9 \<longrightarrow> fmt_02d (int k + 1) = [CHR ''0'', digit_char (k + 1)])"
  proof (intro allI impI)
    fix k assume k: "k < length (epis s)"
    have a: "substitutions s ! k
          = (''_merge_epis'' @ fmt_d (int k) @ ''/timeseries_corrected.nii.gz'',
             ''timeseries_corrected_run'' @ fmt_02d (int k + 1) @ ''.nii.gz'')"
      using k by (simp add: substitutions_def)
    have b: "py_int (fmt_02d (int k + 1)) = Some (int k + 1)"
      by (rule py_int_fmt_02d) simp
    have c: "2 \<le> length (fmt_02d (int k + 1))"
      "k < 99 \<longrightarrow> length (fmt_02d (int k + 1)) = 2"
      using length_fmt_02d[of "int k + 1"] by auto
    have d: "k < 9 \<longrightarrow> fmt_02d (int k + 1) = [CHR ''0'', digit_char (k + 1)]"
      using fmt_02d_one_digit[of "int k + 1"] by (auto simp: nat_add_distrib)
    from a b c d show "substitutions s ! k
          = (''_merge_epis'' @ fmt_d (int k) @ ''/timeseries_corrected.nii.gz'',
             ''timeseries_corrected_run'' @ fmt_02d (int k + 1) @ ''.nii.gz'')
        \<and> py_int (fmt_02d (int k + 1)) = Some (int k + 1)
        \<and> 2 \<le> length (fmt_02d (int k + 1))
        \<and> (k < 99 \<longrightarrow> length (fmt_02d (int k + 1)) = 2)
        \<and> (k < 9 \<longrightarrow> fmt_02d (int k + 1) = [CHR ''0'', digit_char (k + 1)])"
      by blast
  qed
  moreover have "length (substitutions s) = length (epis s)"
    by (simp add: substitutions_def)
  ultimately show ?thesis by blast
qed

theorem substitutions_run_index_witness:
  "substitutions (session_of_epis [''a.nii'', ''b.nii'', ''c.nii''])
     = [(''_merge_epis0/timeseries_corrected.nii.gz'', ''timeseries_corrected_run01.nii.gz''),
        (''_merge_epis1/timeseries_corrected.nii.gz'', ''timeseries_corrected_run02.nii.gz''),
        (''_merge_epis2/timeseries_corrected.nii.gz'', ''timeseries_corrected_run03.nii.gz'')]"
proof -
  let ?s = "session_of_epis [''a.nii'', ''b.nii'', ''c.nii'']"
  have l: "length (epis ?s) = 3" by (simp add: session_of_epis_def)
  have f: "fmt_d 0 = ''0''" "fmt_d 1 = ''1''" "fmt_d 2 = ''2''"
    "fmt_02d 1 = ''01''" "fmt_02d 2 = ''02''" "fmt_02d 3 = ''03''"
    by (simp_all add: fmt_d_def fmt_02d_def dec.simps digit_char_def)
  from substitutions_run_index[of ?s] l
  have len: "length (substitutions ?s) = 3"
    and nth: "\<And>k. k < 3 \<Longrightarrow> substitutions ?s ! k
          = (''_merge_epis'' @ fmt_d (int k) @ ''/timeseries_corrected.nii.gz'',
             ''timeseries_corrected_run'' @ fmt_02d (int k + 1) @ ''.nii.gz'')"
    by auto
  have "substitutions ?s = map (\<lambda>k. substitutions ?s ! k) [0..<3]"
    using len by (metis map_nth)
  also have "\<dots> = [substitutions ?s ! 0, substitutions ?s ! Suc 0, substitutions ?s ! Suc (Suc 0)]"
    by (simp add: upt_rec eval_nat_numeral)
  finally show ?thesis
    using nth[of 0] nth[of "Suc 0"] nth[of "Suc (Suc 0)"] by (simp add: f)
qed

text \<open>
  The index is not always two digits: with a hundred runs, the last one is renamed to
  \<open>timeseries_corrected_run100.nii.gz\<close>.
\<close>

theorem substitutions_index_three_digits:
  "snd (substitutions (session_of_epis (replicate 100 ''run.nii'')) ! 99)
     = ''timeseries_corrected_run100.nii.gz''
   \<and> length (fmt_02d (int 99 + 1)) = 3"
  by (simp add: substitutions_def session_of_epis_def fmt_02d_def dec.simps digit_char_def)

subsection \<open>Expansion of a FanOutStage\<close>

lemma collect_nth:
  "collect f xs = Inr ys \<Longrightarrow> length ys = length xs \<and> (\<forall>k < length xs. f (xs ! k) = Inr (ys ! k))"
proof (induction xs arbitrary: ys)
  case Nil
  then show ?case by simp
next
  case (Cons x xs)
  then obtain y ys' where y: "f x = Inr y" and r: "collect f xs = Inr ys'" and ys: "ys = y # ys'"
    by (auto split: sum.splits)
  from Cons.IH[OF r] have len: "length ys' = length xs"
    and nth: "\<And>k. k < length xs \<Longrightarrow> f (xs ! k) = Inr (ys' ! k)" by simp_all
  have "f ((x # xs) ! k) = Inr (ys ! k)" if "k < length (x # xs)" for k
  proof (cases k)
    case 0
    then show ?thesis using y ys by simp
  next
    case (Suc j)
    then have "j < length xs" using that by simp
    then show ?thesis using nth[of j] Suc ys by simp
  qed
  then show ?case using len ys by simp
qed

lemma zip_slots_length:
  "slots \<noteq> [] \<Longrightarrow> \<forall>(n, l) \<in> set slots. length l = N \<Longrightarrow> length (zip_slots slots) = N"
  by (induction slots rule: zip_slots.induct) auto

lemma zip_slots_nth:
  "slots \<noteq> [] \<Longrightarrow> \<forall>(n, l) \<in> set slots. length l = N \<Longrightarrow> k < N \<Longrightarrow>
   zip_slots slots ! k = map (\<lambda>(n, l). (n, l ! k)) slots"
proof (induction slots rule: zip_slots.induct)
  case 1
  then show ?case by simp
next
  case (2 n l)
  then show ?case by simp
next
  case (3 n l v va)
  then have "length (zip_slots (v # va)) = N"
    by (intro zip_slots_length) auto
  with 3 show ?case by auto
qed

lemma same_length_iff:
  "same_length slots \<longleftrightarrow> \<not> (\<exists>(n, l) \<in> set slots. \<exists>(n', l') \<in> set slots. length l \<noteq> length l')"
proof (cases slots)
  case Nil
  then show ?thesis by (simp add: same_length_def)
next
  case (Cons a rest)
  then have "same_length slots \<longleftrightarrow> (\<forall>p \<in> set slots. length (snd p) = length (snd a))"
    by (simp add: same_length_def case_prod_beta)
  also have "\<dots> \<longleftrightarrow> (\<forall>p \<in> set slots. \<forall>q \<in> set slots. length (snd p) = length (snd q))"
  proof
    assume l: "\<forall>p \<in> set slots. length (snd p) = length (snd a)"
    show "\<forall>p \<in> set slots. \<forall>q \<in> set slots. length (snd p) = length (snd q)"
    proof (intro ballI)
      fix p q assume "p \<in> set slots" "q \<in> set slots"
      with l have "length (snd p) = length (snd a)" "length (snd q) = length (snd a)"
        by blast+
      then show "length (snd p) = length (snd q)" by (rule trans[OF _ sym])
    qed
  next
    assume r: "\<forall>p \<in> set slots. \<forall>q \<in> set slots. length (snd p) = length (snd q)"
    have "a \<in> set slots" using Cons by simp
    with r show "\<forall>p \<in> set slots. length (snd p) = length (snd a)" by blast
  qed
  also have "\<dots> \<longleftrightarrow> \<not> (\<exists>(n, l) \<in> set slots. \<exists>(n', l') \<in> set slots. length l \<noteq> length l')"
    by (simp add: case_prod_beta)
  finally show ?thesis .
qed

text \<open>
  C2. Without nesting, iterated slots (at least one) whose lists all have length \<open>N\<close>
  expand into exactly \<open>N\<close> elements, element \<open>k\<close> binding every slot to element \<open>k\<close> of its
  list; when the stage runs, output \<open>k\<close> is the operation's result on element \<open>k\<close>. If two
  of the lists differ in length, the expansion fails with \<open>FanOutArityError\<close>.
\<close>

theorem zip_expansion:
  "(slots \<noteq> [] \<and> (\<forall>(n, l) \<in> set slots. length l = N) \<longrightarrow>
      (\<exists>es. expand False slots = Inr es \<and> length es = N
         \<and> (\<forall>k < N. es ! k = map (\<lambda>(n, l). (n, l ! k)) slots)
         \<and> (\<forall>outs. run_fan_out operation fixed False slots = Inr outs \<longrightarrow>
               length outs = N
               \<and> (\<forall>k < N. operation (fixed @ map (\<lambda>(n, l). (n, l ! k)) slots)
                             = Inr (outs ! k)))))
   \<and> ((\<exists>(n, l) \<in> set slots. \<exists>(n', l') \<in> set slots. length l \<noteq> length l') \<longrightarrow>
        expand False slots = Inl FanOutArityError
        \<and> run_fan_out operation fixed False slots = Inl FanOutArityError)"
proof (intro conjI impI)
  assume h: "slots \<noteq> [] \<and> (\<forall>(n, l) \<in> set slots. length l = N)"
  then have ne: "slots \<noteq> []" and len: "\<forall>(n, l) \<in> set slots. length l = N" by auto
  have sl: "same_length slots"
    using len by (subst same_length_iff) (auto simp: case_prod_beta)
  have e: "expand False slots = Inr (zip_slots slots)"
    using sl by (simp add: expand_def)
  have l: "length (zip_slots slots) = N" by (rule zip_slots_length[OF ne len])
  have n: "\<forall>k < N. zip_slots slots ! k = map (\<lambda>(n, l). (n, l ! k)) slots"
    using zip_slots_nth[OF ne len] by blast
  have r: "\<forall>outs. run_fan_out operation fixed False slots = Inr outs \<longrightarrow>
               length outs = N
               \<and> (\<forall>k < N. operation (fixed @ map (\<lambda>(n, l). (n, l ! k)) slots)
                             = Inr (outs ! k))"
  proof (intro allI impI)
    fix outs assume "run_fan_out operation fixed False slots = Inr outs"
    then have "collect (\<lambda>e. operation (fixed @ e)) (zip_slots slots) = Inr outs"
      by (simp add: run_fan_out_def e and_then_def)
    from collect_nth[OF this] l n
    show "length outs = N
          \<and> (\<forall>k < N. operation (fixed @ map (\<lambda>(n, l). (n, l ! k)) slots) = Inr (outs ! k))"
      by auto
  qed
  show "\<exists>es. expand False slots = Inr es \<and> length es = N
         \<and> (\<forall>k < N. es ! k = map (\<lambda>(n, l). (n, l ! k)) slots)
         \<and> (\<forall>outs. run_fan_out operation fixed False slots = Inr outs \<longrightarrow>
               length outs = N
               \<and> (\<forall>k < N. operation (fixed @ map (\<lambda>(n, l). (n, l ! k)) slots)
                             = Inr (outs ! k)))"
    by (intro exI[of _ "zip_slots slots"] conjI) (fact e, fact l, fact n, fact r)
next
  assume "\<exists>(n, l) \<in> set slots. \<exists>(n', l') \<in> set slots. length l \<noteq> length l'"
  then have "\<not> same_length slots" by (simp add: same_length_iff)
  then show "expand False slots = Inl FanOutArityError"
    and "run_fan_out operation fixed False slots = Inl FanOutArityError"
    by (simp_all add: expand_def run_fan_out_def and_then_def)
qed

theorem zip_expansion_witness:
  "expand False [(''in_file'', [''v0'', ''v1'', ''v2'']), (''premat'', [''m0'', ''m1'', ''m2''])]
     = Inr [[(''in_file'', ''v0''), (''premat'', ''m0'')],
            [(''in_file'', ''v1''), (''premat'', ''m1'')],
            [(''in_file'', ''v2''), (''premat'', ''m2'')]]
   \<and> expand False [(''in_file'', [''v0'', ''v1'', ''v2'']), (''premat'', [''m0'', ''m1''])]
       = Inl FanOutArityError"
proof -
  let ?good = "[(''in_file'', [''v0'', ''v1'', ''v2'']), (''premat'', [''m0'', ''m1'', ''m2''])]"
  let ?bad = "[(''in_file'', [''v0'', ''v1'', ''v2'']), (''premat'', [''m0'', ''m1''])]"
  have hg: "?good \<noteq> [] \<and> (\<forall>(n, l) \<in> set ?good. length l = 3)" by simp
  from zip_expansion[of ?good 3 Inr "[]", THEN conjunct1, rule_format, OF hg]
  obtain es where e: "expand False ?good = Inr es" and l: "length es = 3"
    and n: "\<forall>k < 3. es ! k = map (\<lambda>(n, l). (n, l ! k)) ?good"
    by (elim exE conjE) (rule that, assumption+)
  have n0: "es ! 0 = [(''in_file'', ''v0''), (''premat'', ''m0'')]"
    using n[rule_format, of 0] by simp
  have n1: "es ! 1 = [(''in_file'', ''v1''), (''premat'', ''m1'')]"
    using n[rule_format, of 1] by simp
  have n2: "es ! 2 = [(''in_file'', ''v2''), (''premat'', ''m2'')]"
    using n[rule_format, of 2] by simp
  have "map (\<lambda>k. es ! k) [0..<length es] = es" by (rule map_nth)
  moreover have "[0..<length es] = [0, 1, 2]" by (simp add: l upt_rec)
  ultimately have "es = [es ! 0, es ! 1, es ! 2]" by simp
  with n0 n1 n2 have good: "es = [[(''in_file'', ''v0''), (''premat'', ''m0'')],
            [(''in_file'', ''v1''), (''premat'', ''m1'')],
            [(''in_file'', ''v2''), (''premat'', ''m2'')]]"
    by simp
  have hb: "\<exists>(n, l) \<in> set ?bad. \<exists>(n', l') \<in> set ?bad. length l \<noteq> length l'"
    by (intro bexI[of _ "(''in_file'', [''v0'', ''v1'', ''v2''])"]
        bexI[of _ "(''premat'', [''m0'', ''m1''])"]) simp_all
  from zip_expansion[of ?bad 0 Inr "[]", THEN conjunct2, rule_format, OF hb, THEN conjunct1]
  have bad: "expand False ?bad = Inl FanOutArityError" .
  from e good bad show ?thesis by simp
qed

lemma cross_slots_length:
  "length (cross_slots slots) = prod_list (map (\<lambda>(n, l). length l) slots)"
proof (induction slots)
  case Nil
  then show ?case by simp
next
  case (Cons a slots)
  obtain n l where a: "a = (n, l)" by (cases a)
  have "length (concat (map (\<lambda>x. map (\<lambda>e. (n, x) # e) (cross_slots slots)) l))
        = length l * length (cross_slots slots)"
    by (induction l) simp_all
  with Cons a show ?case by simp
qed

lemma concat_map_nth:
  assumes "\<And>x. length (f x) = N" and "i < length xs" and "j < N"
  shows "concat (map f xs) ! (i * N + j) = f (xs ! i) ! j"
  using assms(2)
proof (induction xs arbitrary: i)
  case Nil
  then show ?case by simp
next
  case (Cons x xs)
  show ?case
  proof (cases i)
    case 0
    then show ?thesis using assms(1,3) by (simp add: nth_append)
  next
    case (Suc i')
    then have "i' < length xs" using Cons.prems by simp
    from Cons.IH[OF this] Suc show ?thesis using assms(1) by (simp add: nth_append)
  qed
qed

lemma cross_two_nth:
  assumes "i < length xs" and "j < length ys"
  shows "cross_slots [(a, xs), (b, ys)] ! (i * length ys + j) = [(a, xs ! i), (b, ys ! j)]"
proof -
  have c1: "cross_slots [(b, ys)] = map (\<lambda>y. [(b, y)]) ys"
    by (induction ys) simp_all
  let ?f = "\<lambda>x. map (\<lambda>e. (a, x) # e) (cross_slots [(b, ys)])"
  have "cross_slots [(a, xs), (b, ys)] = concat (map ?f xs)" by simp
  moreover have "concat (map ?f xs) ! (i * length ys + j) = ?f (xs ! i) ! j"
    by (rule concat_map_nth) (simp_all add: c1 assms)
  ultimately show ?thesis using assms by (simp add: c1)
qed

lemma lex_index:
  fixes i j i' j' N :: nat
  assumes "j < N" and "j' < N"
  shows "i * N + j < i' * N + j' \<longleftrightarrow> i < i' \<or> (i = i' \<and> j < j')"
proof (cases "i < i'")
  case True
  then have "Suc i \<le> i'" by simp
  then have "Suc i * N \<le> i' * N" by (rule mult_le_mono1)
  with assms True show ?thesis by simp
next
  case False
  show ?thesis
  proof (cases "i = i'")
    case True
    then show ?thesis by simp
  next
    case ne: False
    with False have "Suc i' \<le> i" by simp
    then have "Suc i' * N \<le> i * N" by (rule mult_le_mono1)
    with assms False ne show ?thesis by simp
  qed
qed

text \<open>
  C3. With nesting, two iterated slots with lists of lengths \<open>M\<close> and \<open>N\<close> expand into
  exactly \<open>M * N\<close> elements; the element at position \<open>i * N + j\<close> binds the first slot to
  element \<open>i\<close> of its list and the second to element \<open>j\<close> of its list, and positions
  compare as the index pairs \<open>(i, j)\<close> do lexicographically, the first declared slot
  first.
\<close>

theorem cross_expansion:
  "(\<exists>es. expand True [(a, xs), (b, ys)] = Inr es
      \<and> length es = length xs * length ys
      \<and> (\<forall>i < length xs. \<forall>j < length ys.
            es ! (i * length ys + j) = [(a, xs ! i), (b, ys ! j)]))
   \<and> (\<forall>i i' j j'. j < length ys \<and> j' < length ys \<longrightarrow>
         (i * length ys + j < i' * length ys + j' \<longleftrightarrow> i < i' \<or> (i = i' \<and> j < j')))"
proof -
  have e: "expand True [(a, xs), (b, ys)] = Inr (cross_slots [(a, xs), (b, ys)])"
    by (simp add: expand_def)
  have l: "length (cross_slots [(a, xs), (b, ys)]) = length xs * length ys"
    unfolding cross_slots_length by simp
  have n: "\<forall>i < length xs. \<forall>j < length ys.
            cross_slots [(a, xs), (b, ys)] ! (i * length ys + j) = [(a, xs ! i), (b, ys ! j)]"
    using cross_two_nth by blast
  have o: "\<forall>i i' j j'. j < length ys \<and> j' < length ys \<longrightarrow>
         (i * length ys + j < i' * length ys + j' \<longleftrightarrow> i < i' \<or> (i = i' \<and> j < j'))"
    using lex_index by blast
  from e l n o show ?thesis by blast
qed

theorem cross_expansion_witness:
  "expand True [(''in_file'', [''r0'', ''r1'', ''r2'']), (''in_file2'', [''m0'', ''m1''])]
     = Inr [[(''in_file'', ''r0''), (''in_file2'', ''m0'')],
            [(''in_file'', ''r0''), (''in_file2'', ''m1'')],
            [(''in_file'', ''r1''), (''in_file2'', ''m0'')],
            [(''in_file'', ''r1''), (''in_file2'', ''m1'')],
            [(''in_file'', ''r2''), (''in_file2'', ''m0'')],
            [(''in_file'', ''r2''), (''in_file2'', ''m1'')]]"
proof -
  let ?xs = "[''r0'', ''r1'', ''r2'']" and ?ys = "[''m0'', ''m1'']"
  from cross_expansion[of "''in_file''" ?xs "''in_file2''" ?ys, THEN conjunct1]
  obtain es where
    e: "expand True [(''in_file'', ?xs), (''in_file2'', ?ys)] = Inr es"
    and l: "length es = length ?xs * length ?ys"
    and n: "\<forall>i < length ?xs. \<forall>j < length ?ys.
              es ! (i * length ?ys + j) = [(''in_file'', ?xs ! i), (''in_file2'', ?ys ! j)]"
    by (elim exE conjE) (rule that, assumption+)
  have len: "length es = 6" using l by simp
  have n0: "es ! 0 = [(''in_file'', ''r0''), (''in_file2'', ''m0'')]"
    using n[rule_format, of 0 0] by simp
  have n1: "es ! 1 = [(''in_file'', ''r0''), (''in_file2'', ''m1'')]"
    using n[rule_format, of 0 1] by simp
  have n2: "es ! 2 = [(''in_file'', ''r1''), (''in_file2'', ''m0'')]"
    using n[rule_format, of 1 0] by (simp add: eval_nat_numeral)
  have n3: "es ! 3 = [(''in_file'', ''r1''), (''in_file2'', ''m1'')]"
    using n[rule_format, of 1 1] by (simp add: eval_nat_numeral)
  have n4: "es ! 4 = [(''in_file'', ''r2''), (''in_file2'', ''m0'')]"
    using n[rule_format, of 2 0] by (simp add: eval_nat_numeral)
  have n5: "es ! 5 = [(''in_file'', ''r2''), (''in_file2'', ''m1'')]"
    using n[rule_format, of 2 1] by (simp add: eval_nat_numeral)
  have "map (\<lambda>k. es ! k) [0..<length es] = es" by (rule map_nth)
  moreover have "[0..<length es] = [0, 1, 2, 3, 4, 5]" by (simp add: len upt_rec)
  ultimately have "es = [es ! 0, es ! 1, es ! 2, es ! 3, es ! 4, es ! 5]" by simp
  with n0 n1 n2 n3 n4 n5 e show ?thesis by simp
qed

subsection \<open>Connections\<close>

lemma index_select_nth: "i < length xs \<Longrightarrow> index_select i xs = Inr (xs ! i)"
  by (induction i xs rule: index_select.induct) simp_all

lemma index_select_Inr: "index_select i xs = Inr x \<Longrightarrow> i < length xs \<and> x = xs ! i"
  by (induction i xs rule: index_select.induct) simp_all

lemma run_zip_nth:
  assumes "run_fan_out operation fixed False slots = Inr outs"
    and "slots \<noteq> []" and "i < length outs"
  shows "operation (fixed @ map (\<lambda>(n, l). (n, l ! i)) slots) = Inr (outs ! i)"
proof -
  from assms(1) have sl: "same_length slots"
    and co: "collect (\<lambda>e. operation (fixed @ e)) (zip_slots slots) = Inr outs"
    by (auto simp: run_fan_out_def expand_def and_then_def split: if_splits)
  let ?N = "length (snd (hd slots))"
  from sl have eq: "\<forall>(n, l) \<in> set slots. length l = ?N" by (simp add: same_length_def)
  have len: "length (zip_slots slots) = ?N" by (rule zip_slots_length[OF assms(2) eq])
  from collect_nth[OF co] have lo: "length outs = length (zip_slots slots)"
    and nth: "\<And>k. k < length (zip_slots slots)
                \<Longrightarrow> operation (fixed @ zip_slots slots ! k) = Inr (outs ! k)"
    by simp_all
  from assms(3) lo len have i: "i < ?N" by simp
  have "zip_slots slots ! i = map (\<lambda>(n, l). (n, l ! i)) slots"
    by (rule zip_slots_nth[OF assms(2) eq i])
  with nth[of i] i len show ?thesis by simp
qed



end
